theory Spec2Isabelle
  imports
    Complex_Main
    "HOL-Library.Multiset"
    "HOL-Library.Char_ord"
    "HOL-Library.List_Lexorder"
    "HOL-Library.Product_Lexorder"
    "HOL-Library.Sublist"
begin

section \<open>Strings\<close>

text \<open>
  A Python \<open>str\<close> is a sequence of code points. It is modelled as a \<open>string\<close> in which
  every \<open>char\<close> stands for one code point below 256 (not for a byte of a UTF-8
  encoding), so \<open>length\<close> counts what \<open>len\<close> counts. The character classes below are
  the ones CPython uses on that range: \<open>str.isspace\<close> (also the class \<open>\s\<close> of
  \<open>re\<close> on \<open>str\<close> patterns, and what \<open>strip\<close> and \<open>split\<close> remove), the class
  \<open>\w\<close> (alphanumeric or underscore) and \<open>str.lower\<close>.
\<close>

definition is_space :: "char \<Rightarrow> bool" where
  "is_space c =
     (let n = (of_char c :: nat)
      in (9 \<le> n \<and> n \<le> 13) \<or> (28 \<le> n \<and> n \<le> 32) \<or> n = 133 \<or> n = 160)"

definition is_word :: "char \<Rightarrow> bool" where
  "is_word c =
     (let n = (of_char c :: nat)
      in (48 \<le> n \<and> n \<le> 57) \<or> (65 \<le> n \<and> n \<le> 90) \<or> n = 95 \<or> (97 \<le> n \<and> n \<le> 122)
         \<or> n = 170 \<or> n = 178 \<or> n = 179 \<or> n = 181 \<or> n = 185 \<or> n = 186
         \<or> (188 \<le> n \<and> n \<le> 190) \<or> (192 \<le> n \<and> n \<le> 214)
         \<or> (216 \<le> n \<and> n \<le> 246) \<or> (248 \<le> n \<and> n \<le> 255))"

definition lower_char :: "char \<Rightarrow> char" where
  "lower_char c =
     (let n = (of_char c :: nat)
      in if (65 \<le> n \<and> n \<le> 90) \<or> (192 \<le> n \<and> n \<le> 214) \<or> (216 \<le> n \<and> n \<le> 222)
         then char_of (n + 32) else c)"

text \<open>\<open>s.lower()\<close>\<close>

definition str_lower :: "string \<Rightarrow> string" where
  "str_lower s = map lower_char s"

text \<open>\<open>s.strip()\<close>: whitespace removed at both ends.\<close>

definition str_strip :: "string \<Rightarrow> string" where
  "str_strip s = rev (dropWhile is_space (rev (dropWhile is_space s)))"

text \<open>
  \<open>s.split()\<close>: the maximal runs of non-whitespace characters, in order. The first
  argument is the run being read.
\<close>

fun split_from :: "string \<Rightarrow> string \<Rightarrow> string list" where
  "split_from cur [] = (if cur = [] then [] else [cur])"
| "split_from cur (c # cs) =
     (if is_space c then (if cur = [] then split_from [] cs else cur # split_from [] cs)
      else split_from (cur @ [c]) cs)"

definition str_split :: "string \<Rightarrow> string list" where
  "str_split s = split_from [] s"

datatype error = IndexError | ZeroDivisionError | OSError

text \<open>\<open>xs[0]\<close> raises IndexError on an empty list.\<close>

definition first_item :: "'a list \<Rightarrow> error + 'a" where
  "first_item xs = (case xs of [] \<Rightarrow> Inl IndexError | x # _ \<Rightarrow> Inr x)"

section \<open>Normalizer\<close>

text \<open>
  \<^verbatim>\<open>re.sub(r'^\s*(il|la|lo|i|gli|le|un|uno|una)\s+', '', entity.lower())\<close>

  The pattern is anchored at the start of the string, so at most one match is removed.
  Every alternative begins with a letter, so \<open>\s*\<close> has to consume all the leading
  whitespace. The alternatives are tried in the order written; one is taken when the
  text after it begins with whitespace (\<open>\s+\<close>, which then consumes the whole run).
  When no alternative succeeds the string is returned unchanged.
\<close>

definition articles :: "string list" where
  "articles = [''il'', ''la'', ''lo'', ''i'', ''gli'', ''le'', ''un'', ''uno'', ''una'']"

fun strip_prefix :: "string \<Rightarrow> string \<Rightarrow> string option" where
  "strip_prefix [] s = Some s"
| "strip_prefix (p # ps) [] = None"
| "strip_prefix (p # ps) (c # cs) = (if p = c then strip_prefix ps cs else None)"

fun match_article :: "string list \<Rightarrow> string \<Rightarrow> string option" where
  "match_article [] s = None"
| "match_article (a # as) s =
     (case strip_prefix a s of
        None \<Rightarrow> match_article as s
      | Some rest \<Rightarrow>
          (case rest of
             [] \<Rightarrow> match_article as s
           | c # cs \<Rightarrow> if is_space c then Some (dropWhile is_space rest)
                       else match_article as s))"

definition sub_leading_article :: "string \<Rightarrow> string" where
  "sub_leading_article s =
     (case match_article articles (dropWhile is_space s) of
        None \<Rightarrow> s
      | Some rest \<Rightarrow> rest)"

text \<open>\<^verbatim>\<open>re.sub(r'[^\w\s]', '', entity)\<close>\<close>

definition sub_non_word :: "string \<Rightarrow> string" where
  "sub_non_word s = filter (\<lambda>c. is_word c \<or> is_space c) s"

definition normalize_entity :: "string \<Rightarrow> string" where
  "normalize_entity entity = str_strip (sub_non_word (sub_leading_article (str_lower entity)))"

section \<open>Similarity\<close>

text \<open>
  \<open>difflib.SequenceMatcher(None, a, b).ratio()\<close>, following CPython's \<open>difflib\<close>.
  No junk predicate is given, so the junk set is empty; with \<open>autojunk\<close> (the
  default) a character of \<open>b\<close> is "popular" when \<open>b\<close> has at least 200 characters
  and the character occurs more than \<open>len(b) // 100 + 1\<close> times, and popular
  characters are left out of the index \<open>b2j\<close>.
\<close>

definition popular :: "string \<Rightarrow> char \<Rightarrow> bool" where
  "popular b c = (200 \<le> length b \<and> length b div 100 + 1 < count_list b c)"

type_synonym block = "nat \<times> nat \<times> nat"

text \<open>
  One pass of the inner loop of \<open>find_longest_match\<close>, for the row \<open>i\<close>: the
  positions \<open>j\<close> of \<open>b2j[a[i]]\<close> inside \<open>[blo, bhi)\<close>, in increasing order.
  \<open>j2len\<close> maps a position to the length of the match ending there in the previous
  row, 0 when absent (\<open>j2len.get(j-1, 0)\<close>; the key \<open>-1\<close> is never present).
\<close>

definition flm_cell ::
  "string \<Rightarrow> string \<Rightarrow> nat \<Rightarrow> (nat \<Rightarrow> nat) \<Rightarrow> nat \<Rightarrow> (nat \<Rightarrow> nat) \<times> block \<Rightarrow> (nat \<Rightarrow> nat) \<times> block" where
  "flm_cell a b i j2len j st =
     (case st of (newj2len, best) \<Rightarrow>
        if b ! j = a ! i \<and> \<not> popular b (b ! j) then
          (let k = (if j = 0 then 0 else j2len (j - 1)) + 1
           in (newj2len(j := k),
               if snd (snd best) < k then (i + 1 - k, j + 1 - k, k) else best))
        else (newj2len, best))"

definition flm_row ::
  "string \<Rightarrow> string \<Rightarrow> nat \<Rightarrow> nat \<Rightarrow> nat \<Rightarrow> (nat \<Rightarrow> nat) \<times> block \<Rightarrow> (nat \<Rightarrow> nat) \<times> block" where
  "flm_row a b blo bhi i st =
     (case st of (j2len, best) \<Rightarrow> fold (flm_cell a b i j2len) [blo..<bhi] (\<lambda>_. 0, best))"

text \<open>
  The two loops that extend the best match to the left and to the right. With an
  empty junk set the test \<open>not isbjunk(...)\<close> is always true, and the two further
  loops of the source, which absorb junk, never run.
\<close>

function extend_left :: "string \<Rightarrow> string \<Rightarrow> nat \<Rightarrow> nat \<Rightarrow> block \<Rightarrow> block" where
  "extend_left a b alo blo (besti, bestj, bestsize) =
     (if alo < besti \<and> blo < bestj \<and> a ! (besti - 1) = b ! (bestj - 1)
      then extend_left a b alo blo (besti - 1, bestj - 1, bestsize + 1)
      else (besti, bestj, bestsize))"
  by pat_completeness auto
termination
  by (relation "measure (\<lambda>(a, b, alo, blo, besti, bestj, bestsize). besti)") auto

function extend_right :: "string \<Rightarrow> string \<Rightarrow> nat \<Rightarrow> nat \<Rightarrow> block \<Rightarrow> block" where
  "extend_right a b ahi bhi (besti, bestj, bestsize) =
     (if besti + bestsize < ahi \<and> bestj + bestsize < bhi
         \<and> a ! (besti + bestsize) = b ! (bestj + bestsize)
      then extend_right a b ahi bhi (besti, bestj, bestsize + 1)
      else (besti, bestj, bestsize))"
  by pat_completeness auto
termination
  by (relation "measure (\<lambda>(a, b, ahi, bhi, besti, bestj, bestsize). ahi - (besti + bestsize))") auto

definition find_longest_match :: "string \<Rightarrow> string \<Rightarrow> nat \<Rightarrow> nat \<Rightarrow> nat \<Rightarrow> nat \<Rightarrow> block" where
  "find_longest_match a b alo ahi blo bhi =
     extend_right a b ahi bhi
       (extend_left a b alo blo
          (snd (fold (flm_row a b blo bhi) [alo..<ahi] (\<lambda>_. 0, (alo, blo, 0)))))"

declare extend_left.simps [simp del]

declare extend_right.simps [simp del]

text \<open>
  The block returned lies inside the window it was searched in. The recursion over
  the matching blocks terminates because of this.
\<close>

definition blk_ok :: "nat \<Rightarrow> nat \<Rightarrow> nat \<Rightarrow> nat \<Rightarrow> block \<Rightarrow> bool" where
  "blk_ok alo ahi blo bhi blk =
     (case blk of (i, j, k) \<Rightarrow> alo \<le> i \<and> blo \<le> j \<and> (k = 0 \<longrightarrow> i = alo \<and> j = blo)
        \<and> (0 < k \<longrightarrow> i + k \<le> ahi \<and> j + k \<le> bhi))"

definition len_ok :: "nat \<Rightarrow> nat \<Rightarrow> (nat \<Rightarrow> nat) \<Rightarrow> bool" where
  "len_ok blo m f = (\<forall>j. f j \<le> m \<and> f j \<le> j + 1 - blo)"

lemma flm_cell_ok:
  assumes f: "len_ok blo (i - alo) f" and i: "alo \<le> i" "i < ahi" and j: "blo \<le> j" "j < bhi"
    and st: "len_ok blo (i + 1 - alo) (fst st)" "blk_ok alo ahi blo bhi (snd st)"
  shows "len_ok blo (i + 1 - alo) (fst (flm_cell a b i f j st))
       \<and> blk_ok alo ahi blo bhi (snd (flm_cell a b i f j st))"
proof -
  let ?k = "(if j = 0 then 0 else f (j - 1)) + 1"
  from f have f1: "\<And>x. f x \<le> i - alo" and f2: "\<And>x. f x \<le> x + 1 - blo"
    by (auto simp: len_ok_def)
  have k1: "?k \<le> i + 1 - alo" using f1[of "j - 1"] i by auto
  have k2: "?k \<le> j + 1 - blo" using f2[of "j - 1"] j by auto
  have n: "len_ok blo (i + 1 - alo) ((fst st)(j := ?k))"
    using st(1) k1 k2 by (auto simp: len_ok_def)
  have b: "blk_ok alo ahi blo bhi (i + 1 - ?k, j + 1 - ?k, ?k)"
    using k1 k2 i j by (auto simp: blk_ok_def)
  obtain new best where [simp]: "st = (new, best)" by (cases st)
  show ?thesis
    using n b st unfolding flm_cell_def by (simp add: Let_def)
qed

lemma flm_cells_ok:
  assumes "len_ok blo (i - alo) f" "alo \<le> i" "i < ahi"
  shows "\<forall>j\<in>set js. blo \<le> j \<and> j < bhi \<Longrightarrow>
     len_ok blo (i + 1 - alo) (fst st) \<Longrightarrow> blk_ok alo ahi blo bhi (snd st) \<Longrightarrow>
     len_ok blo (i + 1 - alo) (fst (fold (flm_cell a b i f) js st))
       \<and> blk_ok alo ahi blo bhi (snd (fold (flm_cell a b i f) js st))"
proof (induction js arbitrary: st)
  case Nil
  then show ?case by simp
next
  case (Cons j js)
  from Cons.prems(1) have j: "blo \<le> j" "j < bhi" by auto
  from flm_cell_ok[OF assms j Cons.prems(2,3)] Cons.IH[of "flm_cell a b i f j st"] Cons.prems(1)
  show ?case by simp
qed

lemma flm_row_ok:
  assumes "len_ok blo (i - alo) (fst st)" "blk_ok alo ahi blo bhi (snd st)" "alo \<le> i" "i < ahi"
  shows "len_ok blo (i + 1 - alo) (fst (flm_row a b blo bhi i st))
       \<and> blk_ok alo ahi blo bhi (snd (flm_row a b blo bhi i st))"
proof -
  obtain f best where [simp]: "st = (f, best)" by (cases st)
  have z: "len_ok blo (i + 1 - alo) (fst (\<lambda>_. 0::nat, best))" by (simp add: len_ok_def)
  have js: "\<forall>j\<in>set [blo..<bhi]. blo \<le> j \<and> j < bhi" by simp
  from flm_cells_ok[OF _ assms(3,4) js z, of f a b] assms(1,2)
  show ?thesis unfolding flm_row_def by simp
qed

lemma flm_rows_ok:
  "alo \<le> n \<Longrightarrow> n \<le> ahi \<Longrightarrow>
   len_ok blo (n - alo) (fst (fold (flm_row a b blo bhi) [alo..<n] (\<lambda>_. 0, (alo, blo, 0))))
   \<and> blk_ok alo ahi blo bhi (snd (fold (flm_row a b blo bhi) [alo..<n] (\<lambda>_. 0, (alo, blo, 0))))"
proof (induction n)
  case 0
  then show ?case by (simp add: len_ok_def blk_ok_def)
next
  case (Suc n)
  show ?case
  proof (cases "alo = Suc n")
    case True
    then show ?thesis by (simp add: len_ok_def blk_ok_def)
  next
    case False
    with Suc.prems have le: "alo \<le> n" "n \<le> ahi" "n < ahi" by auto
    from Suc.IH[OF le(1,2)] flm_row_ok[of blo n alo _ ahi bhi a b] le
    show ?thesis by (simp add: Suc_diff_le)
  qed
qed

lemma extend_left_ok:
  "blk_ok alo ahi blo bhi blk \<Longrightarrow> blk_ok alo ahi blo bhi (extend_left a b alo blo blk)"
proof (induction a b alo blo blk rule: extend_left.induct)
  case (1 a b alo blo besti bestj bestsize)
  show ?case
  proof (cases "alo < besti \<and> blo < bestj \<and> a ! (besti - 1) = b ! (bestj - 1)")
    case True
    have "blk_ok alo ahi blo bhi (besti - 1, bestj - 1, bestsize + 1)"
      using True "1.prems" by (auto simp: blk_ok_def)
    from "1.IH"[OF True this] True show ?thesis
      by (subst extend_left.simps) (simp del: extend_left.simps)
  next
    case False
    then have "extend_left a b alo blo (besti, bestj, bestsize) = (besti, bestj, bestsize)"
      by (subst extend_left.simps) (simp only: if_False)
    with "1.prems" show ?thesis by (simp del: extend_left.simps)
  qed
qed

lemma extend_right_ok:
  "blk_ok alo ahi blo bhi blk \<Longrightarrow> blk_ok alo ahi blo bhi (extend_right a b ahi bhi blk)"
proof (induction a b ahi bhi blk rule: extend_right.induct)
  case (1 a b ahi bhi besti bestj bestsize)
  show ?case
  proof (cases "besti + bestsize < ahi \<and> bestj + bestsize < bhi
         \<and> a ! (besti + bestsize) = b ! (bestj + bestsize)")
    case True
    have "blk_ok alo ahi blo bhi (besti, bestj, bestsize + 1)"
      using True "1.prems" by (auto simp: blk_ok_def)
    from "1.IH"[OF True this] True show ?thesis
      by (subst extend_right.simps) (simp del: extend_right.simps)
  next
    case False
    then have "extend_right a b ahi bhi (besti, bestj, bestsize) = (besti, bestj, bestsize)"
      by (subst extend_right.simps) (simp only: if_False)
    with "1.prems" show ?thesis by (simp del: extend_right.simps)
  qed
qed

lemma find_longest_match_ok:
  "blk_ok alo ahi blo bhi (find_longest_match a b alo ahi blo bhi)"
proof (cases "alo \<le> ahi")
  case True
  from flm_rows_ok[OF True order_refl]
  have "blk_ok alo ahi blo bhi
          (snd (fold (flm_row a b blo bhi) [alo..<ahi] (\<lambda>_. 0, (alo, blo, 0))))"
    by simp
  then show ?thesis
    unfolding find_longest_match_def by (intro extend_right_ok extend_left_ok)
next
  case False
  then have "blk_ok alo ahi blo bhi
          (snd (fold (flm_row a b blo bhi) [alo..<ahi] (\<lambda>_. 0, (alo, blo, 0))))"
    by (simp add: blk_ok_def)
  then show ?thesis
    unfolding find_longest_match_def by (intro extend_right_ok extend_left_ok)
qed

lemma find_longest_match_bounds:
  assumes "find_longest_match a b alo ahi blo bhi = (i, j, k)" "k \<noteq> 0"
  shows "alo \<le> i \<and> i + k \<le> ahi \<and> blo \<le> j \<and> j + k \<le> bhi"
  using find_longest_match_ok[of alo ahi blo bhi a b] assms by (simp add: blk_ok_def)

text \<open>
  \<open>get_matching_blocks\<close> searches the longest match in a window and then the windows to
  its left and to its right; \<open>ratio\<close> only sums the sizes of the blocks found, so
  the order in which the source's work list visits the windows, its final sorting and
  its merging of adjacent blocks do not change the sum computed here.
\<close>

function matches :: "string \<Rightarrow> string \<Rightarrow> nat \<Rightarrow> nat \<Rightarrow> nat \<Rightarrow> nat \<Rightarrow> nat" where
  "matches a b alo ahi blo bhi =
     (case find_longest_match a b alo ahi blo bhi of
        (i, j, k) \<Rightarrow>
          if k = 0 then 0
          else k
               + (if alo < i \<and> blo < j then matches a b alo i blo j else 0)
               + (if i + k < ahi \<and> j + k < bhi then matches a b (i + k) ahi (j + k) bhi else 0))"
  by pat_completeness auto
termination
  by (relation "measure (\<lambda>(a, b, alo, ahi, blo, bhi). (ahi - alo) + (bhi - blo))")
     (auto dest!: find_longest_match_bounds[OF sym])

declare matches.simps [simp del]

text \<open>
  \<open>ratio()\<close> is \<open>2.0 * matches / length\<close>, and 1.0 when both strings are empty.
  Floating-point numbers are modelled as the rationals they approximate.
\<close>

definition ratio :: "string \<Rightarrow> string \<Rightarrow> rat" where
  "ratio a b =
     (let length_ab = length a + length b
      in if length_ab \<noteq> 0
         then 2 * of_nat (matches a b 0 (length a) 0 (length b)) / of_nat length_ab
         else 1)"

definition similar :: "string \<Rightarrow> string \<Rightarrow> rat \<Rightarrow> bool" where
  "similar a b threshold = (threshold \<le> ratio a b)"

section \<open>Clusterer\<close>

text \<open>
  A \<open>dict\<close> keeps its keys in insertion order, so the cluster dictionary is an
  association list. \<open>clusters[key].append(v)\<close> on a \<open>defaultdict(list)\<close> appends to
  the list of an existing key and adds a new key, with the list \<open>[v]\<close>, at the end
  otherwise.
\<close>

type_synonym clusters = "(string \<times> string list) list"

fun dict_append :: "string \<Rightarrow> string \<Rightarrow> clusters \<Rightarrow> clusters" where
  "dict_append key v [] = [(key, [v])]"
| "dict_append key v ((key', vs) # d) =
     (if key = key' then (key', vs @ [v]) # d else (key', vs) # dict_append key v d)"

text \<open>
  The test of the inner loop,
  \<^verbatim>\<open>similar(norm1, norm2, t) or norm1.split()[0] == norm2.split()[0] or norm1[:5] == norm2[:5]\<close>.
  \<open>or\<close> evaluates from the left and stops at the first true operand, so the two
  \<open>split()[0]\<close> are evaluated, \<open>norm1\<close> first, only when \<open>similar\<close> is false; each
  raises IndexError when its string has no token.
\<close>

definition joins :: "rat \<Rightarrow> string \<Rightarrow> string \<Rightarrow> error + bool" where
  "joins similarity_threshold norm1 norm2 =
     (if similar norm1 norm2 similarity_threshold then Inr True
      else case first_item (str_split norm1) of
             Inl e \<Rightarrow> Inl e
           | Inr token1 \<Rightarrow>
               (case first_item (str_split norm2) of
                  Inl e \<Rightarrow> Inl e
                | Inr token2 \<Rightarrow> Inr (token1 = token2 \<or> take 5 norm1 = take 5 norm2)))"

text \<open>The state of the two loops: the clusters built so far and \<open>used_indices\<close>.\<close>

type_synonym cluster_state = "clusters \<times> nat set"

text \<open>
  The inner loop, over \<open>enumerate(normalized_entities[i+1:], start=i+1)\<close>, for the
  seed \<open>(norm1, orig1)\<close>.
\<close>

fun scan ::
  "rat \<Rightarrow> string \<Rightarrow> string \<Rightarrow> (nat \<times> string \<times> string) list \<Rightarrow> cluster_state
     \<Rightarrow> error + cluster_state" where
  "scan t norm1 orig1 [] st = Inr st"
| "scan t norm1 orig1 ((j, norm2, orig2) # rest) (clusters, used_indices) =
     (if j \<in> used_indices then scan t norm1 orig1 rest (clusters, used_indices)
      else case joins t norm1 norm2 of
             Inl e \<Rightarrow> Inl e
           | Inr joined \<Rightarrow>
               if joined
               then scan t norm1 orig1 rest
                      (dict_append orig1 orig2 clusters, insert j used_indices)
               else scan t norm1 orig1 rest (clusters, used_indices))"

text \<open>The outer loop, over \<open>enumerate(normalized_entities)\<close>.\<close>

fun cluster_loop ::
  "rat \<Rightarrow> (string \<times> string) list \<Rightarrow> (nat \<times> string \<times> string) list \<Rightarrow> cluster_state
     \<Rightarrow> error + cluster_state" where
  "cluster_loop t normalized_entities [] st = Inr st"
| "cluster_loop t normalized_entities ((i, norm1, orig1) # rest) (clusters, used_indices) =
     (if i \<in> used_indices then cluster_loop t normalized_entities rest (clusters, used_indices)
      else case scan t norm1 orig1
                  (enumerate (i + 1) (drop (i + 1) normalized_entities))
                  (dict_append orig1 orig1 clusters, insert i used_indices) of
             Inl e \<Rightarrow> Inl e
           | Inr st' \<Rightarrow> cluster_loop t normalized_entities rest st')"

definition cluster_entities :: "string list \<Rightarrow> rat \<Rightarrow> error + clusters" where
  "cluster_entities entities similarity_threshold =
     (let normalized_entities = map (\<lambda>e. (normalize_entity e, e)) entities
      in case cluster_loop similarity_threshold normalized_entities
                (enumerate 0 normalized_entities) ([], {}) of
           Inl e \<Rightarrow> Inl e
         | Inr (clusters, used_indices) \<Rightarrow> Inr clusters)"

section \<open>RelationMerger\<close>

type_synonym relation = "string \<times> string \<times> string"

text \<open>The map from every member to its representative; a later cluster overwrites.\<close>

definition entity_to_cluster :: "clusters \<Rightarrow> (string \<rightharpoonup> string)" where
  "entity_to_cluster entity_clusters =
     fold (\<lambda>(cluster_rep, members) m. fold (\<lambda>member m. m(member \<mapsto> cluster_rep)) members m)
          entity_clusters Map.empty"

text \<open>\<open>d.get(key, default)\<close>\<close>

definition dict_get :: "('k \<rightharpoonup> 'v) \<Rightarrow> 'k \<Rightarrow> 'v \<Rightarrow> 'v" where
  "dict_get d key dflt = (case d key of None \<Rightarrow> dflt | Some v \<Rightarrow> v)"

fun merge_loop :: "(string \<rightharpoonup> string) \<Rightarrow> relation list \<Rightarrow> relation set \<Rightarrow> relation set" where
  "merge_loop m [] merged = merged"
| "merge_loop m ((src, rel, tgt) # rest) merged =
     (let new_src = dict_get m src src;
          new_tgt = dict_get m tgt tgt
      in if str_lower new_src = str_lower new_tgt
            \<or> length (str_strip rel) < 3
            \<or> str_lower rel \<in> set [''is'', ''has'', ''of'']
         then merge_loop m rest merged
         else merge_loop m rest (insert (new_src, rel, new_tgt) merged))"

text \<open>
  \<open>sorted\<close> of a set of tuples of strings: tuples and strings compare
  lexicographically, characters by code point.
\<close>

definition merge_relations :: "relation list \<Rightarrow> clusters \<Rightarrow> relation list" where
  "merge_relations relations entity_clusters =
     sorted_list_of_set (merge_loop (entity_to_cluster entity_clusters) relations {})"

section \<open>RelationAnalyzer\<close>

text \<open>\<open>counts[key] += 1\<close> on a \<open>defaultdict(int)\<close>, keys in insertion order.\<close>

fun dict_incr :: "'k \<Rightarrow> ('k \<times> int) list \<Rightarrow> ('k \<times> int) list" where
  "dict_incr key [] = [(key, 1)]"
| "dict_incr key ((key', n) # d) =
     (if key = key' then (key', n + 1) # d else (key', n) # dict_incr key d)"

fun count_loop ::
  "relation list \<Rightarrow> (string \<times> int) list \<times> ((string \<times> string) \<times> int) list
     \<Rightarrow> (string \<times> int) list \<times> ((string \<times> string) \<times> int) list" where
  "count_loop [] st = st"
| "count_loop ((src, rel, tgt) # rest) (rel_counts, entity_pairs) =
     count_loop rest
       (dict_incr (str_lower rel) rel_counts,
        dict_incr (str_lower src, str_lower tgt) entity_pairs)"

text \<open>\<open>sorted(d.items(), key=lambda x: -x[1])[:n]\<close>; \<open>sorted\<close> is stable, as \<open>sort_key\<close> is.\<close>

definition top_items :: "nat \<Rightarrow> ('k \<times> int) list \<Rightarrow> ('k \<times> int) list" where
  "top_items n items = take n (sort_key (\<lambda>x. - snd x) items)"

record relation_analysis =
  top_relations :: "(string \<times> int) list"
  common_entity_pairs :: "((string \<times> string) \<times> int) list"

definition analyze_relations :: "relation list \<Rightarrow> relation_analysis" where
  "analyze_relations relations =
     (case count_loop relations ([], []) of
        (rel_counts, entity_pairs) \<Rightarrow>
          \<lparr>top_relations = top_items 10 rel_counts,
           common_entity_pairs = top_items 5 entity_pairs\<rparr>)"

section \<open>Aggregator\<close>

text \<open>
  An input graph is a dictionary read from JSON; any of its keys may be absent, and
  \<open>graph.get(key, [])\<close> reads an absent key as the empty list. Relations are
  triples of strings, as the type annotations of the source say.
\<close>

record graph =
  kg_entities :: "string list option"
  kg_relations :: "relation list option"
  kg_edges :: "string list option"

definition get_list :: "'a list option \<Rightarrow> 'a list" where
  "get_list field = (case field of None \<Rightarrow> [] | Some xs \<Rightarrow> xs)"

text \<open>
  The loop that fills the sets \<open>all_entities\<close> and \<open>all_relations\<close>. The order in
  which a Python set is iterated is not fixed by the language (it depends on the hash
  values and on the insertions made), so each set is modelled by the sequence of the
  elements inserted: its value is the \<open>set\<close> of that sequence, its size the
  cardinality of that set, and \<open>list(s)\<close> is given by a function of the sequence that
  \<open>cluster_knowledge_graphs\<close> takes as a parameter.
\<close>

fun collect ::
  "graph list \<Rightarrow> string list \<times> relation list \<Rightarrow> string list \<times> relation list" where
  "collect [] st = st"
| "collect (graph # rest) (all_entities, all_relations) =
     collect rest
       (all_entities @ get_list (kg_entities graph),
        all_relations @ get_list (kg_relations graph))"

record stats =
  original_entities :: nat
  clustered_entities :: nat
  original_relations :: nat
  merged_relations :: nat
  relation_analysis :: relation_analysis

record clustered_graph =
  cg_entities :: "string list"
  cg_relations :: "relation list"
  cg_edges :: "string list"
  cg_entity_clusters :: clusters
  cg_stats :: stats

text \<open>
  \<open>cluster_knowledge_graphs\<close>; \<open>list_entities\<close> and \<open>list_relations\<close> are the
  iteration orders of the two sets. The message it prints is part of the trace of
  \<open>process_directory\<close> below.
\<close>

definition cluster_knowledge_graphs ::
  "(string list \<Rightarrow> string list) \<Rightarrow> (relation list \<Rightarrow> relation list) \<Rightarrow> graph list \<Rightarrow> rat
     \<Rightarrow> error + clustered_graph" where
  "cluster_knowledge_graphs list_entities list_relations graphs similarity_threshold =
     (case collect graphs ([], []) of
        (all_entities, all_relations) \<Rightarrow>
          (case cluster_entities (list_entities all_entities) similarity_threshold of
             Inl e \<Rightarrow> Inl e
           | Inr entity_clusters \<Rightarrow>
               (let merged = merge_relations (list_relations all_relations) entity_clusters;
                    relation_stats = analyze_relations merged
                in Inr \<lparr>cg_entities = sort (map fst entity_clusters),
                        cg_relations = merged,
                        cg_edges = sorted_list_of_set (set (map (\<lambda>(src, rel, tgt). rel) merged)),
                        cg_entity_clusters = entity_clusters,
                        cg_stats =
                          \<lparr>original_entities = card (set all_entities),
                           clustered_entities = length entity_clusters,
                           original_relations = card (set all_relations),
                           merged_relations = length merged,
                           relation_analysis = relation_stats\<rparr>\<rparr>)))"

section \<open>Files\<close>

text \<open>
  The environment of a run: what \<open>os.walk\<close> yields for a directory (each directory
  with the names of its files), what opening and parsing a file gives, and which
  directories cannot be created and which files cannot be written. A file is
  identified by its directory and its name.
\<close>

datatype json_value = Json_Dict graph | Json_Other

datatype read_result = Read_Error | Read_Ok json_value

record world =
  walk :: "string \<Rightarrow> (string \<times> string list) list"
  read_json :: "string \<Rightarrow> string \<Rightarrow> read_result"
  mkdir_fails :: "string \<Rightarrow> bool"
  write_fails :: "string \<Rightarrow> string \<Rightarrow> bool"

datatype message =
    Loaded string string
  | Error_loading string string
  | Loading_from string
  | No_valid_graphs
  | Clustering_graphs nat rat
  | Pre_clustering nat nat
  | Saved_to string string
  | Results_header
  | Original_entities nat
  | Results stats

datatype artifact = Clustered_kg clustered_graph | Clustering_details clusters stats

datatype event = Mkdir string | Print message | Write string string artifact

text \<open>
  \<open>load_graphs_from_directory\<close>: a file is read when its name ends with \<open>.json\<close>
  and does not start with \<open>aggregated\<close>; what it holds is kept when it is a
  dictionary with the key \<open>entities\<close>; every exception raised while reading is
  caught and reported.
\<close>

fun load_files ::
  "world \<Rightarrow> string \<Rightarrow> string list \<Rightarrow> graph list \<times> event list \<Rightarrow> graph list \<times> event list" where
  "load_files w folder [] st = st"
| "load_files w folder (file # files) (graphs, trace) =
     (if suffix ''.json'' file \<and> \<not> prefix ''aggregated'' file then
        (case read_json w folder file of
           Read_Error \<Rightarrow>
             load_files w folder files (graphs, trace @ [Print (Error_loading folder file)])
         | Read_Ok v \<Rightarrow>
             load_files w folder files
               (case v of
                  Json_Dict graph \<Rightarrow>
                    if kg_entities graph \<noteq> None then graphs @ [graph] else graphs
                | Json_Other \<Rightarrow> graphs,
                trace @ [Print (Loaded folder file)]))
      else load_files w folder files (graphs, trace))"

fun load_dirs ::
  "world \<Rightarrow> (string \<times> string list) list \<Rightarrow> graph list \<times> event list
     \<Rightarrow> graph list \<times> event list" where
  "load_dirs w [] st = st"
| "load_dirs w ((folder, files) # rest) st = load_dirs w rest (load_files w folder files st)"

definition load_graphs_from_directory :: "world \<Rightarrow> string \<Rightarrow> graph list \<times> event list" where
  "load_graphs_from_directory w directory = load_dirs w (walk w directory) ([], [])"

text \<open>
  \<open>process_directory\<close> returns what the run raised, if anything, and the events of the
  run in order. The division in the message about the reduction raises
  ZeroDivisionError when there was no entity at all.
\<close>

definition process_directory ::
  "world \<Rightarrow> (string list \<Rightarrow> string list) \<Rightarrow> (relation list \<Rightarrow> relation list)
     \<Rightarrow> string \<Rightarrow> string \<Rightarrow> rat \<Rightarrow> error option \<times> event list" where
  "process_directory w list_entities list_relations input_dir output_dir similarity_threshold =
     (if mkdir_fails w output_dir then (Some OSError, [])
      else case load_graphs_from_directory w input_dir of
        (graphs, load_trace) \<Rightarrow>
          (let log1 = [Mkdir output_dir, Print (Loading_from input_dir)] @ load_trace
           in if graphs = [] then (None, log1 @ [Print No_valid_graphs])
              else
                (let log2 = log1 @
                       [Print (Clustering_graphs (length graphs) similarity_threshold),
                        Print (Pre_clustering
                                 (card (set (fst (collect graphs ([], [])))))
                                 (card (set (snd (collect graphs ([], []))))))]
                 in case cluster_knowledge_graphs list_entities list_relations graphs
                           similarity_threshold of
                      Inl e \<Rightarrow> (Some e, log2)
                    | Inr clustered \<Rightarrow>
                        if write_fails w output_dir ''clustered_kg.json''
                        then (Some OSError, log2)
                        else
                          (let log3 = log2 @
                                 [Write output_dir ''clustered_kg.json'' (Clustered_kg clustered),
                                  Print (Saved_to output_dir ''clustered_kg.json'')]
                           in if write_fails w output_dir ''clustering_details.json''
                              then (Some OSError, log3)
                              else
                                (let log4 = log3 @
                                       [Write output_dir ''clustering_details.json''
                                          (Clustering_details (cg_entity_clusters clustered)
                                             (cg_stats clustered)),
                                        Print Results_header,
                                        Print (Original_entities
                                                 (original_entities (cg_stats clustered)))]
                                 in if original_entities (cg_stats clustered) = 0
                                    then (Some ZeroDivisionError, log4)
                                    else (None, log4 @ [Print (Results (cg_stats clustered))]))))))"

section \<open>Verified properties\<close>

subsection \<open>Scenarios\<close>

text \<open>
  C6 (Scenario A). Clustering the entities "Il Cane", "cane", "Gatto", in that order,
  with threshold 0.85 returns the cluster of "Il Cane" with the members "Il Cane" and
  "cane", and the cluster of "Gatto" with itself as only member; the number of
  clusters, which is the clustered-entity count, is 2.
\<close>

theorem scenario_a_clusters:
  "cluster_entities [''Il Cane'', ''cane'', ''Gatto''] (85 / 100)
     = Inr [(''Il Cane'', [''Il Cane'', ''cane'']), (''Gatto'', [''Gatto''])]
   \<and> (case cluster_entities [''Il Cane'', ''cane'', ''Gatto''] (85 / 100) of
        Inl e \<Rightarrow> False
      | Inr clusters \<Rightarrow> length clusters = 2)"
  by code_simp

text \<open>
  C7 (Scenario B). Merging the relations ("Il Cane", "is", "Gatto") and
  ("cane", "mangia", "carne") with the cluster map of Scenario A returns exactly the
  list with the one relation ("Il Cane", "mangia", "carne"): the first relation is
  dropped, the source of the second is replaced by its representative, and "carne",
  which is in no cluster, stays as it is.
\<close>

theorem scenario_b_merge:
  "merge_relations
     [(''Il Cane'', ''is'', ''Gatto''), (''cane'', ''mangia'', ''carne'')]
     [(''Il Cane'', [''Il Cane'', ''cane'']), (''Gatto'', [''Gatto''])]
   = [(''Il Cane'', ''mangia'', ''carne'')]
   \<and> dict_get (entity_to_cluster [(''Il Cane'', [''Il Cane'', ''cane'']), (''Gatto'', [''Gatto''])])
        ''cane'' ''cane'' = ''Il Cane''
   \<and> dict_get (entity_to_cluster [(''Il Cane'', [''Il Cane'', ''cane'']), (''Gatto'', [''Gatto''])])
        ''carne'' ''carne'' = ''carne''
   \<and> str_lower ''is'' \<in> set [''is'', ''has'', ''of'']"
  by code_simp

subsection \<open>Clusterer: the partition\<close>

definition cl_inv :: "string list \<Rightarrow> cluster_state \<Rightarrow> bool" where
  "cl_inv es st =
     (case st of (cl, used) \<Rightarrow>
        finite used \<and> used \<subseteq> {..<length es}
        \<and> mset (concat (map snd cl)) = image_mset ((!) es) (mset_set used))"

lemma dict_append_members:
  "mset (concat (map snd (dict_append key v d))) = add_mset v (mset (concat (map snd d)))"
  by (induction d) auto

lemma cl_inv_add:
  assumes "cl_inv es (cl, used)" "j \<notin> used" "j < length es"
  shows "cl_inv es (dict_append key (es ! j) cl, insert j used)"
  using assms by (simp add: cl_inv_def dict_append_members)

definition indexed :: "string list \<Rightarrow> (nat \<times> string \<times> string) list \<Rightarrow> bool" where
  "indexed es ps = (\<forall>(j, n, orig) \<in> set ps. j < length es \<and> orig = es ! j)"

lemma scan_inv:
  "indexed es ps \<Longrightarrow> cl_inv es st \<Longrightarrow> scan t norm1 orig1 ps st = Inr st' \<Longrightarrow>
   cl_inv es st' \<and> snd st \<subseteq> snd st'"
proof (induction t norm1 orig1 ps st arbitrary: st' rule: scan.induct)
  case (1 t norm1 orig1 st)
  then show ?case by simp
next
  case (2 t norm1 orig1 j norm2 orig2 rest clusters used_indices)
  from "2.prems"(1) have rest: "indexed es rest" and j: "j < length es" "orig2 = es ! j"
    by (auto simp: indexed_def)
  show ?case
  proof (cases "j \<in> used_indices")
    case True
    with "2.prems" "2.IH"(1)[OF True rest] show ?thesis by simp
  next
    case False
    from "2.prems"(3) False obtain joined where jn: "joins t norm1 norm2 = Inr joined"
      by (cases "joins t norm1 norm2") auto
    show ?thesis
    proof (cases joined)
      case True
      from cl_inv_add[OF "2.prems"(2) False j(1)] j(2)
      have inv: "cl_inv es (dict_append orig1 orig2 clusters, insert j used_indices)" by simp
      from "2.prems"(3) False jn True
      have "scan t norm1 orig1 rest (dict_append orig1 orig2 clusters, insert j used_indices)
              = Inr st'" by simp
      from "2.IH"(2)[OF False jn True rest inv this] show ?thesis by auto
    next
      case F: False
      from "2.prems"(3) False jn F
      have "scan t norm1 orig1 rest (clusters, used_indices) = Inr st'" by simp
      from "2.IH"(3)[OF False jn F rest "2.prems"(2) this] show ?thesis by simp
    qed
  qed
qed

lemma indexed_enumerate_drop:
  "indexed es (enumerate (i + 1) (drop (i + 1) (map (\<lambda>e. (normalize_entity e, e)) es)))"
  by (auto simp: indexed_def in_set_enumerate_eq)

lemma cluster_loop_inv:
  "indexed es ps \<Longrightarrow> cl_inv es st \<Longrightarrow>
   cluster_loop t (map (\<lambda>e. (normalize_entity e, e)) es) ps st = Inr st' \<Longrightarrow>
   cl_inv es st' \<and> snd st \<union> fst ` set ps \<subseteq> snd st'"
proof (induction ps arbitrary: st st')
  case Nil
  then show ?case by simp
next
  case (Cons p rest)
  let ?ne = "map (\<lambda>e. (normalize_entity e, e)) es"
  obtain i norm1 orig1 where p: "p = (i, norm1, orig1)" by (cases p)
  obtain clusters used_indices where st: "st = (clusters, used_indices)" by (cases st)
  from Cons.prems(1) have rest: "indexed es rest" and i: "i < length es" "orig1 = es ! i"
    by (auto simp: indexed_def p)
  show ?case
  proof (cases "i \<in> used_indices")
    case True
    with Cons.prems(3) have "cluster_loop t ?ne rest st = Inr st'" by (simp add: p st)
    from Cons.IH[OF rest Cons.prems(2) this] True show ?thesis by (auto simp: p st)
  next
    case False
    let ?st0 = "(dict_append orig1 orig1 clusters, insert i used_indices)"
    let ?ps = "enumerate (i + 1) (drop (i + 1) ?ne)"
    from Cons.prems(3) False obtain st1 where
      sc: "scan t norm1 orig1 ?ps ?st0 = Inr st1"
      by (cases "scan t norm1 orig1 ?ps ?st0") (auto simp: p st)
    with Cons.prems(3) False have cl: "cluster_loop t ?ne rest st1 = Inr st'"
      by (simp add: p st)
    from cl_inv_add[OF _ False i(1)] Cons.prems(2) i(2) have inv0: "cl_inv es ?st0"
      by (simp add: st)
    from scan_inv[OF indexed_enumerate_drop inv0 sc]
    have inv1: "cl_inv es st1" and sub1: "insert i used_indices \<subseteq> snd st1" by auto
    from Cons.IH[OF rest inv1 cl] sub1 show ?thesis by (auto simp: p st)
  qed
qed

lemma indexed_enumerate: "indexed es (enumerate 0 (map (\<lambda>e. (normalize_entity e, e)) es))"
  by (auto simp: indexed_def in_set_enumerate_eq)

lemma image_nth_upt: "image_mset ((!) es) (mset_set {..<length es}) = mset es"
proof -
  have "mset_set {..<length es} = mset [0..<length es]"
    by (simp add: lessThan_atLeast0)
  then have "image_mset ((!) es) (mset_set {..<length es}) = mset (map ((!) es) [0..<length es])"
    by simp
  then show ?thesis by (simp add: map_nth)
qed

lemma cluster_entities_members:
  assumes "cluster_entities es t = Inr cl"
  shows "mset (concat (map snd cl)) = mset es"
proof -
  let ?ne = "map (\<lambda>e. (normalize_entity e, e)) es"
  from assms obtain used where
    loop: "cluster_loop t ?ne (enumerate 0 ?ne) ([], {}) = Inr (cl, used)"
    by (auto simp: cluster_entities_def Let_def split: sum.splits)
  have inv0: "cl_inv es ([], {})" by (simp add: cl_inv_def)
  from cluster_loop_inv[OF indexed_enumerate inv0 loop]
  have inv: "cl_inv es (cl, used)" and sub: "fst ` set (enumerate 0 ?ne) \<subseteq> used" by auto
  have "fst ` set (enumerate 0 ?ne) = {..<length es}"
    unfolding set_map[symmetric] map_fst_enumerate by auto
  with sub inv have "used = {..<length es}" by (auto simp: cl_inv_def)
  with inv show ?thesis by (simp add: cl_inv_def image_nth_upt)
qed


lemma unique_cluster:
  "distinct (concat (map snd cl)) \<Longrightarrow> (r, ms) \<in> set cl \<Longrightarrow> (r', ms') \<in> set cl \<Longrightarrow>
   e \<in> set ms \<Longrightarrow> e \<in> set ms' \<Longrightarrow> r = r'"
  by (induction cl) force+

lemma split_from_nonempty:
  "cur \<noteq> [] \<or> (\<exists>c \<in> set s. \<not> is_space c) \<Longrightarrow> split_from cur s \<noteq> []"
  by (induction cur s rule: split_from.induct) auto

lemma str_strip_nonspace: "str_strip s \<noteq> [] \<Longrightarrow> \<exists>c \<in> set (str_strip s). \<not> is_space c"
proof -
  assume a: "str_strip s \<noteq> []"
  let ?r = "dropWhile is_space (rev (dropWhile is_space s))"
  from a have ne: "?r \<noteq> []" by (simp add: str_strip_def)
  then have "\<not> is_space (hd ?r)" by (rule hd_dropWhile)
  moreover from ne have "hd ?r \<in> set ?r" by simp
  ultimately show ?thesis unfolding str_strip_def by (metis set_rev)
qed

lemma normalized_token:
  "normalize_entity e \<noteq> [] \<Longrightarrow> str_split (normalize_entity e) \<noteq> []"
  unfolding str_split_def
  using split_from_nonempty[of "[]" "normalize_entity e"] str_strip_nonspace
  by (auto simp: normalize_entity_def)

lemma joins_returns:
  "str_split norm1 \<noteq> [] \<Longrightarrow> str_split norm2 \<noteq> [] \<Longrightarrow> \<exists>b. joins t norm1 norm2 = Inr b"
  by (cases "str_split norm1"; cases "str_split norm2") (auto simp: joins_def first_item_def)

definition tokened :: "(nat \<times> string \<times> string) list \<Rightarrow> bool" where
  "tokened ps = (\<forall>(j, n, orig) \<in> set ps. str_split n \<noteq> [])"

lemma scan_returns:
  "tokened ps \<Longrightarrow> str_split norm1 \<noteq> [] \<Longrightarrow> \<exists>st'. scan t norm1 orig1 ps st = Inr st'"
proof (induction ps arbitrary: st)
  case Nil
  then show ?case by simp
next
  case (Cons p rest)
  obtain j norm2 orig2 where p: "p = (j, norm2, orig2)" by (cases p)
  obtain clusters used_indices where st: "st = (clusters, used_indices)" by (cases st)
  from Cons.prems(1) have rest: "tokened rest" and n2: "str_split norm2 \<noteq> []"
    by (auto simp: tokened_def p)
  from joins_returns[OF Cons.prems(2) n2] obtain b where "joins t norm1 norm2 = Inr b" ..
  with Cons.IH[OF rest Cons.prems(2)] show ?case by (simp add: p st)
qed

lemma enumerate_snd: "(j, x) \<in> set (enumerate n xs) \<Longrightarrow> x \<in> set xs"
  unfolding enumerate_eq_zip by (rule set_zip_rightD)

lemma tokened_enumerate:
  "\<forall>x \<in> set ne. str_split (fst x) \<noteq> [] \<Longrightarrow> tokened (enumerate n (drop k ne))"
  unfolding tokened_def by (auto dest!: enumerate_snd in_set_dropD)

lemma cluster_loop_returns:
  "\<forall>x \<in> set ne. str_split (fst x) \<noteq> [] \<Longrightarrow> tokened ps \<Longrightarrow>
   \<exists>st'. cluster_loop t ne ps st = Inr st'"
proof (induction ps arbitrary: st)
  case Nil
  then show ?case by simp
next
  case (Cons p rest)
  obtain i norm1 orig1 where p: "p = (i, norm1, orig1)" by (cases p)
  obtain clusters used_indices where st: "st = (clusters, used_indices)" by (cases st)
  from Cons.prems(2) have rest: "tokened rest" and n1: "str_split norm1 \<noteq> []"
    by (auto simp: tokened_def p)
  from scan_returns[OF tokened_enumerate[OF Cons.prems(1)] n1]
  obtain st1 where "scan t norm1 orig1 (enumerate (i + 1) (drop (i + 1) ne))
      (dict_append orig1 orig1 clusters, insert i used_indices) = Inr st1" by blast
  with Cons.IH[OF Cons.prems(1) rest] show ?case by (simp add: p st)
qed

lemma cluster_entities_returns:
  assumes "\<forall>e \<in> set es. normalize_entity e \<noteq> []"
  shows "\<exists>cl. cluster_entities es t = Inr cl"
proof -
  let ?ne = "map (\<lambda>e. (normalize_entity e, e)) es"
  from assms have a: "\<forall>x \<in> set ?ne. str_split (fst x) \<noteq> []"
    by (auto simp: normalized_token)
  from tokened_enumerate[OF a, of 0 0] have "tokened (enumerate 0 ?ne)" by simp
  from cluster_loop_returns[OF a this, of t "([], {})"]
  show ?thesis by (auto simp: cluster_entities_def Let_def)
qed

text \<open>
  C1. For pairwise distinct entities, whatever \<open>cluster_entities\<close> returns is a
  partition of the input: the members of the clusters, taken together, are exactly the
  input entities, no entity occurs twice in the member lists, and every entity is a
  member of the cluster of exactly one representative. It does return whenever no
  entity has an empty normalized form.
\<close>

theorem cluster_entities_partition:
  assumes "distinct entities"
  shows "(\<forall>clusters. cluster_entities entities t = Inr clusters \<longrightarrow>
            (\<Union>(rep, members) \<in> set clusters. set members) = set entities
            \<and> distinct (concat (map snd clusters))
            \<and> (\<forall>e \<in> set entities.
                 \<exists>!rep. \<exists>members. (rep, members) \<in> set clusters \<and> e \<in> set members))
       \<and> ((\<forall>e \<in> set entities. normalize_entity e \<noteq> []) \<longrightarrow>
            (\<exists>clusters. cluster_entities entities t = Inr clusters))"
proof (intro conjI allI impI)
  fix clusters
  assume r: "cluster_entities entities t = Inr clusters"
  from cluster_entities_members[OF r] have m: "mset (concat (map snd clusters)) = mset entities" .
  from m have s: "set (concat (map snd clusters)) = set entities" by (rule mset_eq_setD)
  from m assms show d: "distinct (concat (map snd clusters))"
    by (metis mset_eq_imp_distinct_iff)
  from s show u: "(\<Union>(rep, members) \<in> set clusters. set members) = set entities"
    by (auto simp: split_def)
  show "\<forall>e \<in> set entities.
          \<exists>!rep. \<exists>members. (rep, members) \<in> set clusters \<and> e \<in> set members"
  proof
    fix e
    assume "e \<in> set entities"
    with u obtain rep members where "(rep, members) \<in> set clusters" "e \<in> set members"
      by blast
    then show "\<exists>!rep. \<exists>members. (rep, members) \<in> set clusters \<and> e \<in> set members"
      using unique_cluster[OF d] by blast
  qed
next
  assume "\<forall>e \<in> set entities. normalize_entity e \<noteq> []"
  then show "\<exists>clusters. cluster_entities entities t = Inr clusters"
    by (rule cluster_entities_returns)
qed

theorem cluster_entities_partition_witness:
  "distinct [''Il Cane'', ''cane'', ''Gatto'']
   \<and> cluster_entities [''Il Cane'', ''cane'', ''Gatto''] (85 / 100)
       = Inr [(''Il Cane'', [''Il Cane'', ''cane'']), (''Gatto'', [''Gatto''])]
   \<and> (\<Union>(rep, members) \<in> set [(''Il Cane'', [''Il Cane'', ''cane'']), (''Gatto'', [''Gatto''])].
          set members) = set [''Il Cane'', ''cane'', ''Gatto'']
   \<and> distinct (concat (map snd [(''Il Cane'', [''Il Cane'', ''cane'']), (''Gatto'', [''Gatto''])]))"
proof -
  have d: "distinct [''Il Cane'', ''cane'', ''Gatto'']" by simp
  have r: "cluster_entities [''Il Cane'', ''cane'', ''Gatto''] (85 / 100)
             = Inr [(''Il Cane'', [''Il Cane'', ''cane'']), (''Gatto'', [''Gatto''])]"
    by code_simp
  from cluster_entities_partition[OF d, of "85 / 100"] r d show ?thesis by blast
qed

subsection \<open>Clusterer: the unguarded first token\<close>

text \<open>
  C4. \<open>cluster_entities\<close> does not return on every list of distinct entities: with
  the entities "!" and "abc" and threshold 0.85, the normalized form of "!" is empty,
  the similarity test fails and \<open>norm1.split()[0]\<close> raises IndexError.
\<close>

theorem cluster_entities_index_error:
  "cluster_entities [''!'', ''abc''] (85 / 100) = Inl IndexError
   \<and> normalize_entity ''!'' = []
   \<and> distinct [''!'', ''abc'']"
  by code_simp

subsection \<open>RelationMerger\<close>

definition keeps :: "relation \<Rightarrow> bool" where
  "keeps x = (case x of (s, r, t) \<Rightarrow>
      str_lower s \<noteq> str_lower t \<and> 3 \<le> length (str_strip r)
      \<and> str_lower r \<notin> {''is'', ''has'', ''of''})"

lemma merge_loop_finite: "finite merged \<Longrightarrow> finite (merge_loop m rs merged)"
  by (induction m rs merged rule: merge_loop.induct) (simp_all add: Let_def)

lemma merge_loop_members:
  "x \<in> merge_loop m rs merged \<Longrightarrow>
   x \<in> merged \<or> (keeps x \<and> (\<exists>src rel tgt. (src, rel, tgt) \<in> set rs
                     \<and> x = (dict_get m src src, rel, dict_get m tgt tgt)))"
proof (induction m rs merged rule: merge_loop.induct)
  case (1 m merged)
  then show ?case by simp
next
  case (2 m src rel tgt rest merged)
  show ?case
  proof (cases "str_lower (dict_get m src src) = str_lower (dict_get m tgt tgt)
            \<or> length (str_strip rel) < 3
            \<or> str_lower rel \<in> set [''is'', ''has'', ''of'']")
    case True
    with "2.prems" have "x \<in> merge_loop m rest merged" by (simp add: Let_def)
    from "2.IH"(1)[OF refl refl True this] show ?thesis by auto
  next
    case False
    with "2.prems" have "x \<in> merge_loop m rest
        (insert (dict_get m src src, rel, dict_get m tgt tgt) merged)"
      by (simp add: Let_def)
    from "2.IH"(2)[OF refl refl False this] False show ?thesis
      by (auto simp: keeps_def)
  qed
qed

text \<open>
  C2. Every triple of the output of \<open>merge_relations\<close> has a source and a target that
  differ when lower-cased, a predicate of trimmed length at least 3 and outside the
  stoplist when lower-cased, and is an input relation with both endpoints resolved
  (an entity that is no member of a cluster resolves to itself); the output has no
  duplicates and is sorted.
\<close>

theorem merge_relations_postcondition:
  "(\<forall>x \<in> set (merge_relations relations entity_clusters).
      (case x of (s, r, t) \<Rightarrow>
         str_lower s \<noteq> str_lower t \<and> 3 \<le> length (str_strip r)
         \<and> str_lower r \<notin> {''is'', ''has'', ''of''})
      \<and> (\<exists>src rel tgt. (src, rel, tgt) \<in> set relations
            \<and> x = (dict_get (entity_to_cluster entity_clusters) src src, rel,
                    dict_get (entity_to_cluster entity_clusters) tgt tgt)))
   \<and> distinct (merge_relations relations entity_clusters)
   \<and> sorted (merge_relations relations entity_clusters)"
proof -
  let ?S = "merge_loop (entity_to_cluster entity_clusters) relations {}"
  have fin: "finite ?S" by (rule merge_loop_finite) simp
  have mem: "set (merge_relations relations entity_clusters) = ?S"
    unfolding merge_relations_def using fin by simp
  show ?thesis
    unfolding mem
    using merge_loop_members[of _ "entity_to_cluster entity_clusters" relations "{}"]
    by (auto simp: keeps_def merge_relations_def)
qed

theorem merge_relations_postcondition_witness:
  "(''Il Cane'', ''mangia'', ''carne'')
     \<in> set (merge_relations
              [(''Il Cane'', ''is'', ''Gatto''), (''cane'', ''mangia'', ''carne'')]
              [(''Il Cane'', [''Il Cane'', ''cane'']), (''Gatto'', [''Gatto''])])
   \<and> str_lower ''Il Cane'' \<noteq> str_lower ''carne''
   \<and> 3 \<le> length (str_strip ''mangia'')
   \<and> str_lower ''mangia'' \<notin> {''is'', ''has'', ''of''}"
proof -
  have m: "(''Il Cane'', ''mangia'', ''carne'')
     \<in> set (merge_relations
              [(''Il Cane'', ''is'', ''Gatto''), (''cane'', ''mangia'', ''carne'')]
              [(''Il Cane'', [''Il Cane'', ''cane'']), (''Gatto'', [''Gatto''])])"
    by code_simp
  from merge_relations_postcondition
         [of "[(''Il Cane'', ''is'', ''Gatto''), (''cane'', ''mangia'', ''carne'')]"
             "[(''Il Cane'', [''Il Cane'', ''cane'']), (''Gatto'', [''Gatto''])]"] m
  show ?thesis by blast
qed

subsection \<open>RelationAnalyzer\<close>

definition count_of :: "('k \<times> int) list \<Rightarrow> 'k \<Rightarrow> int" where
  "count_of d key = (case map_of d key of None \<Rightarrow> 0 | Some n \<Rightarrow> n)"

lemma dict_incr_map_fst:
  "map fst (dict_incr key d)
     = (if key \<in> set (map fst d) then map fst d else map fst d @ [key])"
  by (induction d) (auto simp: image_iff, force+)

lemma dict_incr_distinct: "distinct (map fst d) \<Longrightarrow> distinct (map fst (dict_incr key d))"
  by (simp add: dict_incr_map_fst)

lemma dict_incr_count:
  "count_of (dict_incr key d) k = count_of d k + (if k = key then 1 else 0)"
  by (induction d) (auto simp: count_of_def)

lemma fold_dict_incr_distinct:
  "distinct (map fst d) \<Longrightarrow> distinct (map fst (fold dict_incr keys d))"
  by (induction keys arbitrary: d) (simp_all add: dict_incr_distinct)

lemma fold_dict_incr_count:
  "count_of (fold dict_incr keys d) k = count_of d k + int (count_list keys k)"
  by (induction keys arbitrary: d) (auto simp: dict_incr_count)

lemma count_of_member:
  "distinct (map fst d) \<Longrightarrow> (k, n) \<in> set d \<Longrightarrow> count_of d k = n"
  by (simp add: count_of_def)

lemma count_list_map_filter:
  "count_list (map f xs) k = length (filter (\<lambda>x. f x = k) xs)"
  by (induction xs) auto

lemma count_loop_fst:
  "fst (count_loop rs st) = fold dict_incr (map (\<lambda>(src, rel, tgt). str_lower rel) rs) (fst st)"
  by (induction rs st rule: count_loop.induct) simp_all

lemma count_loop_snd:
  "snd (count_loop rs st)
     = fold dict_incr (map (\<lambda>(src, rel, tgt). (str_lower src, str_lower tgt)) rs) (snd st)"
  by (induction rs st rule: count_loop.induct) simp_all

lemma top_items_length: "length (top_items n items) \<le> n"
  by (simp add: top_items_def)

lemma top_items_subset: "set (top_items n items) \<subseteq> set items"
  unfolding top_items_def using set_take_subset[of n "sort_key (\<lambda>x. - snd x) items"] by simp

lemma top_items_sorted: "sorted_wrt (\<ge>) (map snd (top_items n items))"
proof -
  have "sorted (map (\<lambda>x. - snd x) (sort_key (\<lambda>x. - snd x) items))"
    by (rule sorted_sort_key)
  then have "sorted_wrt (\<lambda>x y. snd y \<le> snd x) (sort_key (\<lambda>x. - snd x) items)"
    by (simp add: sorted_wrt_map)
  then have "sorted_wrt (\<lambda>x y. snd y \<le> snd x) (top_items n items)"
    unfolding top_items_def by (rule sorted_wrt_take)
  then show ?thesis by (simp add: sorted_wrt_map)
qed

lemma top_items_counts:
  assumes "(k, n) \<in> set (top_items m (fold dict_incr (map f xs) []))"
  shows "n = int (length (filter (\<lambda>x. f x = k) xs))"
proof -
  let ?d = "fold dict_incr (map f xs) []"
  have d: "distinct (map fst ?d)" by (rule fold_dict_incr_distinct) simp
  from assms top_items_subset have "(k, n) \<in> set ?d" by blast
  from count_of_member[OF d this] fold_dict_incr_count[of "map f xs" "[]" k]
  show ?thesis by (simp add: count_of_def count_list_map_filter)
qed

text \<open>
  C8. \<open>analyze_relations\<close> returns at most 10 pairs of a predicate and a count and at
  most 5 pairs of a (source, target) pair and a count, each list in non-increasing order
  of the counts; the count reported for a lower-cased predicate (for a lower-cased
  source and target) is the number of input triples that have it.
\<close>

theorem analyze_relations_postcondition:
  "length (top_relations (analyze_relations relations)) \<le> 10
   \<and> sorted_wrt (\<ge>) (map snd (top_relations (analyze_relations relations)))
   \<and> (\<forall>(p, n) \<in> set (top_relations (analyze_relations relations)).
        n = int (length (filter (\<lambda>(src, rel, tgt). str_lower rel = p) relations)))
   \<and> length (common_entity_pairs (analyze_relations relations)) \<le> 5
   \<and> sorted_wrt (\<ge>) (map snd (common_entity_pairs (analyze_relations relations)))
   \<and> (\<forall>(p, n) \<in> set (common_entity_pairs (analyze_relations relations)).
        n = int (length (filter (\<lambda>(src, rel, tgt). (str_lower src, str_lower tgt) = p)
                           relations)))"
proof -
  obtain rc ep where st: "count_loop relations ([], []) = (rc, ep)"
    by (cases "count_loop relations ([], [])")
  have rc: "rc = fold dict_incr (map (\<lambda>(src, rel, tgt). str_lower rel) relations) []"
    using count_loop_fst[of relations "([], [])"] st by simp
  have ep: "ep = fold dict_incr
                   (map (\<lambda>(src, rel, tgt). (str_lower src, str_lower tgt)) relations) []"
    using count_loop_snd[of relations "([], [])"] st by simp
  have tr: "top_relations (analyze_relations relations) = top_items 10 rc"
    and cp: "common_entity_pairs (analyze_relations relations) = top_items 5 ep"
    by (simp_all add: analyze_relations_def st)
  have c1: "\<forall>(p, n) \<in> set (top_items 10 rc).
        n = int (length (filter (\<lambda>(src, rel, tgt). str_lower rel = p) relations))"
    using top_items_counts[of _ _ 10 "\<lambda>(src, rel, tgt). str_lower rel" relations]
    unfolding rc by (auto simp: split_def)
  have c2: "\<forall>(p, n) \<in> set (top_items 5 ep).
        n = int (length (filter (\<lambda>(src, rel, tgt). (str_lower src, str_lower tgt) = p)
                           relations))"
    using top_items_counts[of _ _ 5 "\<lambda>(src, rel, tgt). (str_lower src, str_lower tgt)" relations]
    unfolding ep by (auto simp: split_def)
  show ?thesis
    unfolding tr cp
    using top_items_length[of 10 rc] top_items_length[of 5 ep]
          top_items_sorted[of 10 rc] top_items_sorted[of 5 ep] c1 c2
    by blast
qed

theorem analyze_relations_postcondition_witness:
  "(''eats'', 2) \<in> set (top_relations (analyze_relations
       [(''a'', ''Eats'', ''b''), (''A'', ''eats'', ''B''), (''c'', ''has'', ''d'')]))
   \<and> (2::int) = int (length (filter (\<lambda>(src, rel, tgt). str_lower rel = ''eats'')
       [(''a'', ''Eats'', ''b''), (''A'', ''eats'', ''B''), (''c'', ''has'', ''d'')]))"
proof -
  have m: "(''eats'', 2) \<in> set (top_relations (analyze_relations
       [(''a'', ''Eats'', ''b''), (''A'', ''eats'', ''B''), (''c'', ''has'', ''d'')]))"
    by code_simp
  from analyze_relations_postcondition
         [of "[(''a'', ''Eats'', ''b''), (''A'', ''eats'', ''B''), (''c'', ''has'', ''d'')]"] m
  show ?thesis by blast
qed

subsection \<open>Normalizer: idempotence\<close>

lemma lower_char_idem: "lower_char (lower_char c) = lower_char c"
proof -
  have "of_char c < (256::nat)" by simp
  then show ?thesis
    unfolding lower_char_def Let_def by (auto simp: of_char_of)
qed

lemma strip_prefix_append: "strip_prefix p s = Some r \<Longrightarrow> s = p @ r"
  by (induction p s rule: strip_prefix.induct) (auto split: if_splits)

lemma match_article_suffix:
  "match_article as s = Some r \<Longrightarrow> [] \<notin> set as \<Longrightarrow> set r \<subseteq> set s \<and> length r < length s"
proof (induction as)
  case Nil then show ?case by simp
next
  case (Cons a as)
  show ?case
  proof (cases "strip_prefix a s")
    case None with Cons show ?thesis by simp
  next
    case (Some rest)
    then have s: "s = a @ rest" by (rule strip_prefix_append)
    from Cons.prems have a: "a \<noteq> []" by auto
    show ?thesis
    proof (cases rest)
      case Nil with Some Cons show ?thesis by simp
    next
      case (Cons c cs)
      show ?thesis
      proof (cases "is_space c")
        case True
        with Some Cons Cons.prems have r: "r = dropWhile is_space rest" by simp
        have "set r \<subseteq> set rest" unfolding r by (rule set_dropWhileD[THEN subsetI])
        moreover have "length r \<le> length rest" unfolding r by (rule length_dropWhile_le)
        ultimately show ?thesis using s a by (cases a) auto
      next
        case False
        with Some Cons Cons.prems Cons.IH show ?thesis by simp
      qed
    qed
  qed
qed

lemma articles_nonempty: "[] \<notin> set articles"
  by (simp add: articles_def)

lemma sub_leading_article_set: "set (sub_leading_article s) \<subseteq> set s"
  using match_article_suffix[OF _ articles_nonempty, of "dropWhile is_space s"]
    set_dropWhileD[of _ is_space s]
  by (auto simp: sub_leading_article_def split: option.splits)

lemma str_strip_set: "set (str_strip s) \<subseteq> set s"
  unfolding str_strip_def by (auto dest!: set_dropWhileD)

lemma str_strip_length: "length (str_strip s) \<le> length s"
  unfolding str_strip_def
  using length_dropWhile_le[of is_space "rev (dropWhile is_space s)"] length_dropWhile_le[of is_space s]
  by simp

lemma dropWhile_snoc_keep: "\<not> P x \<Longrightarrow> \<exists>w. dropWhile P (ys @ [x]) = w @ [x]"
  by (induction ys) auto

lemma str_strip_head: "dropWhile is_space (str_strip s) = str_strip s"
proof (cases "dropWhile is_space s")
  case Nil
  show ?thesis unfolding str_strip_def Nil by simp
next
  case (Cons x t)
  then have nx: "\<not> is_space x" using hd_dropWhile[of is_space s] by auto
  from dropWhile_snoc_keep[of is_space x "rev t"] nx obtain w
    where "dropWhile is_space (rev t @ [x]) = w @ [x]" by blast
  then have "str_strip s = x # rev w" by (simp add: str_strip_def Cons)
  with nx show ?thesis by simp
qed

lemma str_strip_idem: "str_strip (str_strip s) = str_strip s"
proof -
  have "str_strip (str_strip s) = rev (dropWhile is_space (rev (str_strip s)))"
    by (subst str_strip_def) (simp only: str_strip_head)
  also have "\<dots> = str_strip s" by (simp add: str_strip_def)
  finally show ?thesis .
qed

lemma lower_normalized: "str_lower (normalize_entity x) = normalize_entity x"
proof -
  have "set (normalize_entity x) \<subseteq> set (str_lower x)"
    unfolding normalize_entity_def sub_non_word_def
    using str_strip_set sub_leading_article_set by fastforce
  then have "\<forall>c \<in> set (normalize_entity x). lower_char c = c"
    by (auto simp: str_lower_def lower_char_idem)
  then show ?thesis unfolding str_lower_def by (simp add: map_idI)
qed

lemma word_normalized: "sub_non_word (normalize_entity x) = normalize_entity x"
proof -
  have "set (normalize_entity x) \<subseteq> set (sub_non_word (sub_leading_article (str_lower x)))"
    unfolding normalize_entity_def by (rule str_strip_set)
  then show ?thesis unfolding sub_non_word_def by (auto simp: filter_id_conv)
qed

lemma head_normalized: "dropWhile is_space (normalize_entity x) = normalize_entity x"
  unfolding normalize_entity_def by (rule str_strip_head)

lemma strip_normalized: "str_strip (normalize_entity x) = normalize_entity x"
  unfolding normalize_entity_def by (rule str_strip_idem)

lemma normalize_entity_twice:
  "normalize_entity (normalize_entity x) =
     (case match_article articles (normalize_entity x) of
        None \<Rightarrow> normalize_entity x
      | Some rest \<Rightarrow> str_strip (sub_non_word rest))"
proof (cases "match_article articles (normalize_entity x)")
  case None
  then have "sub_leading_article (normalize_entity x) = normalize_entity x"
    by (simp add: sub_leading_article_def head_normalized)
  then have "normalize_entity (normalize_entity x) = normalize_entity x"
    by (subst normalize_entity_def) (simp add: lower_normalized word_normalized strip_normalized)
  with None show ?thesis by simp
next
  case (Some rest)
  then have "sub_leading_article (normalize_entity x) = rest"
    by (simp add: sub_leading_article_def head_normalized)
  then have "normalize_entity (normalize_entity x) = str_strip (sub_non_word rest)"
    by (subst normalize_entity_def) (simp add: lower_normalized)
  with Some show ?thesis by simp
qed

text \<open>
  C3. Normalizing twice gives the same string as normalizing once exactly when the
  normalized string does not itself begin with a recognized article followed by
  whitespace. Only one leading article is removed by a call, so a second call removes
  another one when the first call has left one at the start.
\<close>

theorem normalize_entity_idempotent_iff:
  "normalize_entity (normalize_entity x) = normalize_entity x
     \<longleftrightarrow> match_article articles (normalize_entity x) = None"
proof (cases "match_article articles (normalize_entity x)")
  case None
  then show ?thesis by (simp add: normalize_entity_twice)
next
  case (Some rest)
  from match_article_suffix[OF Some articles_nonempty]
  have "length rest < length (normalize_entity x)" by simp
  moreover have "length (str_strip (sub_non_word rest)) \<le> length rest"
    using str_strip_length[of "sub_non_word rest"] by (simp add: sub_non_word_def le_trans[OF _ length_filter_le])
  ultimately have "str_strip (sub_non_word rest) \<noteq> normalize_entity x" by auto
  with Some show ?thesis by (simp add: normalize_entity_twice)
qed

theorem normalize_entity_idempotent_iff_witness:
  "match_article articles (normalize_entity ''Il Cane'') = None
   \<and> normalize_entity (normalize_entity ''Il Cane'') = normalize_entity ''Il Cane''"
proof -
  have "match_article articles (normalize_entity ''Il Cane'') = None" by code_simp
  with normalize_entity_idempotent_iff[of "''Il Cane''"] show ?thesis by simp
qed

text \<open>
  The string \<^verbatim>\<open>il il cane\<close> is normalized to \<^verbatim>\<open>il cane\<close>, and that one to
  \<^verbatim>\<open>cane\<close>: normalization is not idempotent.
\<close>

theorem normalize_entity_not_idempotent:
  "normalize_entity (normalize_entity ''il il cane'') \<noteq> normalize_entity ''il il cane''"
  by code_simp

end
